theory Spec2Isabelle
  imports Complex_Main "HOL-Library.Sublist"
begin

section \<open>Strings and numbers of the Python source\<close>

text \<open>
  Strings are lists of characters. The detectors only compare strings, lowercase them,
  concatenate them and scan them for the double-quote character, so the model works on
  ASCII text: \<open>lower\<close> maps \<open>A\<close>..\<open>Z\<close> to \<open>a\<close>..\<open>z\<close> and leaves every other
  character alone, as Python's \<open>str.lower\<close> does on ASCII.

  Python floats are modelled as rationals. The only arithmetic the source does on them is
  halving a bias constant, adding \<open>0.25\<close> repeatedly and comparing with a threshold; on
  finite floats of ordinary magnitude these operations are exact.
\<close>

definition dquote :: char where
  "dquote = CHR 0x22"

definition squote :: char where
  "squote = CHR 0x27"

definition lower_char :: "char \<Rightarrow> char" where
  "lower_char c =
     (case map_of (zip ''ABCDEFGHIJKLMNOPQRSTUVWXYZ'' ''abcdefghijklmnopqrstuvwxyz'') c of
        Some d \<Rightarrow> d
      | None \<Rightarrow> c)"

definition lower :: "string \<Rightarrow> string" where
  "lower s = map lower_char s"

definition digit_char :: "nat \<Rightarrow> char" where
  "digit_char d = ''0123456789'' ! d"

text \<open>Decimal rendering of a non-negative integer, as an f-string renders \<open>{n}\<close>.\<close>

function str_nat :: "nat \<Rightarrow> string" where
  "str_nat n =
     (if n < 10 then [digit_char n] else str_nat (n div 10) @ [digit_char (n mod 10)])"
  by pat_completeness auto
termination
  by (relation "measure id") auto

definition str_int :: "int \<Rightarrow> string" where
  "str_int i = (if i < 0 then CHR ''-'' # str_nat (nat (- i)) else str_nat (nat i))"


section \<open>Issue, Flag, Report and Document\<close>

text \<open>
  Modelled from the spec: the classes \<open>Issue\<close>, \<open>Flag\<close>, \<open>Report\<close> of
  \<open>genderbias.detector\<close> and \<open>Document\<close> of \<open>genderbias.document\<close> are imported by the
  detectors but their source is not part of the files at hand. The spec gives an Issue a
  category name, an explanation, an optional fix suggestion and a signed bias score (in
  this positional order); a Flag a start offset, a stop offset and its Issue; a Report a
  category label, a collection of Flags (\<open>add_flag\<close> adds one) and a summary
  (\<open>set_summary\<close> sets it).

  The fix of an Issue is an option: \<open>None\<close> stands for a constructor call that passes no
  fix at all, \<open>Some s\<close> for a call that passes the string \<open>s\<close> (possibly empty). Likewise
  the summary of a Report is \<open>None\<close> until \<open>set_summary\<close> is called.
\<close>

record issue =
  issue_name :: string
  issue_description :: string
  issue_fix :: "string option"
  issue_bias :: rat

record flag =
  flag_start :: int
  flag_stop :: int
  flag_issue :: issue

record report =
  report_name :: string
  report_flags :: "flag list"
  report_summary :: "string option"

definition Issue :: "string \<Rightarrow> string \<Rightarrow> string option \<Rightarrow> rat \<Rightarrow> issue" where
  "Issue n d f b = \<lparr>issue_name = n, issue_description = d, issue_fix = f, issue_bias = b\<rparr>"

definition Flag :: "int \<Rightarrow> int \<Rightarrow> issue \<Rightarrow> flag" where
  "Flag s e i = \<lparr>flag_start = s, flag_stop = e, flag_issue = i\<rparr>"

definition Report :: "string \<Rightarrow> report" where
  "Report n = \<lparr>report_name = n, report_flags = [], report_summary = None\<rparr>"

definition add_flag :: "report \<Rightarrow> flag \<Rightarrow> report" where
  "add_flag r f = r\<lparr>report_flags := report_flags r @ [f]\<rparr>"

definition set_summary :: "report \<Rightarrow> string \<Rightarrow> report" where
  "set_summary r s = r\<lparr>report_summary := Some s\<rparr>"

text \<open>
  A Document is read through two methods only: \<open>text()\<close> and \<open>words_with_indices()\<close>, the
  latter a sequence of (word, start, stop) triples produced by the external tokenizer.
\<close>

record document =
  doc_text :: string
  words_with_indices :: "(string \<times> int \<times> int) list"


section \<open>The parsed token stream\<close>

text \<open>
  \<open>nlp(doc.text())\<close> is the external parser. Of each token the detector reads \<open>text\<close>,
  \<open>dep_\<close>, \<open>sent.start_char\<close>, \<open>sent.end_char\<close> and the sequence \<open>head.children\<close>; of
  each child it reads \<open>pos_\<close> and \<open>text\<close>.
\<close>

record ref_token =
  ref_pos :: string
  ref_text :: string

record token =
  tok_text :: string
  tok_dep :: string
  head_children :: "ref_token list"
  sent_start_char :: int
  sent_end_char :: int

text \<open>
  The module-level data of \<open>effort/__init__.py\<close>. The two word lists are read from
  \<open>.wordlist\<close> files and the two bias constants are class attributes of \<open>Issue\<close>; none of
  them is in the source at hand, so they are parameters, together with the parser.
\<close>

record env =
  EFFORT_WORDS :: "string list"
  ACCOMPLISHMENT_WORDS :: "string list"
  negative_result :: rat
  positive_result :: rat
  nlp :: "string \<Rightarrow> token list"

definition PRONOUNS_TO_IGNORE :: "string list" where
  "PRONOUNS_TO_IGNORE = [''me'', ''myself'', ''I'']"


section \<open>EffortDetector.get_report\<close>

subsection \<open>Pass A: the loop over \<open>doc.words_with_indices()\<close>\<close>

definition effort_description :: "string \<Rightarrow> string" where
  "effort_description word =
     ''The word '' @ [squote] @ word @ [squote] @ '' tends to speak more about ''
     @ ''effort than concrete accomplishment.''"

definition effort_fix :: string where
  "effort_fix = ''Speak about concrete achievement rather '' @ ''than abstract effort.''"

definition accomplishment_description :: "string \<Rightarrow> string" where
  "accomplishment_description word =
     ''The word '' @ [squote] @ word @ [squote] @ '' illustrates concrete accomplishment.''"

definition word_step :: "env \<Rightarrow> string \<times> int \<times> int \<Rightarrow> report \<Rightarrow> report" where
  "word_step E w report =
     (case w of (word, start, stop) \<Rightarrow>
        let report =
              (if lower word \<in> set (EFFORT_WORDS E)
               then add_flag report
                      (Flag start stop
                         (Issue ''Effort vs Accomplishment'' (effort_description word)
                            (Some effort_fix) (negative_result E * (1 / 2))))
               else report)
        in (if lower word \<in> set (ACCOMPLISHMENT_WORDS E)
            then add_flag report
                   (Flag start stop
                      (Issue ''Effort vs Accomplishment'' (accomplishment_description word)
                         None (positive_result E * (1 / 2))))
            else report))"

fun words_loop :: "env \<Rightarrow> (string \<times> int \<times> int) list \<Rightarrow> report \<Rightarrow> report" where
  "words_loop E [] report = report"
| "words_loop E (w # ws) report = words_loop E ws (word_step E w report)"


subsection \<open>Pass B: the loop over the parsed tokens\<close>

text \<open>
  The loop state: the two counters and the set \<open>flags\<close> of tuples
  (start, stop, warning, suggestion, bias). The Python set is a duplicate-free list;
  \<open>flags.add\<close> is \<open>List.insert\<close>. The order in which Python iterates a set is not
  specified, so nothing below depends on the order of this list.
\<close>

type_synonym flag_tuple = "int \<times> int \<times> string \<times> string \<times> rat"

record scan_state =
  accomplishment_words :: nat
  effort_words :: nat
  flags :: "flag_tuple list"

definition accomplishment_warning :: "string \<Rightarrow> string" where
  "accomplishment_warning t =
     ''The word '' @ [squote] @ t @ [squote] @ '' refers to ''
     @ ''explicit accomplishment rather than effort.''"

definition effort_warning :: "string \<Rightarrow> string" where
  "effort_warning t =
     ''The word '' @ [squote] @ t @ [squote] @ '' tends to speak ''
     @ ''about effort more than accomplishment.''"

definition effort_suggestion :: string where
  "effort_suggestion = ''Try replacing with phrasing that '' @ ''emphasizes accomplishment.''"

definition reference_step :: "env \<Rightarrow> token \<Rightarrow> ref_token \<Rightarrow> scan_state \<Rightarrow> scan_state" where
  "reference_step E tok reference_token st =
     (if ref_pos reference_token \<in> set [''PRON'', ''PROPN'']
         \<and> ref_text reference_token \<notin> set PRONOUNS_TO_IGNORE
      then
        (if tok_text tok \<in> set (ACCOMPLISHMENT_WORDS E)
         then st\<lparr>accomplishment_words := accomplishment_words st + 1,
                 flags := List.insert
                            (sent_start_char tok, sent_end_char tok,
                             accomplishment_warning (tok_text tok), '''', positive_result E)
                            (flags st)\<rparr>
         else if tok_text tok \<in> set (EFFORT_WORDS E)
         then st\<lparr>effort_words := effort_words st + 1,
                 flags := List.insert
                            (sent_start_char tok, sent_end_char tok,
                             effort_warning (tok_text tok), effort_suggestion,
                             negative_result E)
                            (flags st)\<rparr>
         else st)
      else st)"

fun reference_loop :: "env \<Rightarrow> token \<Rightarrow> ref_token list \<Rightarrow> scan_state \<Rightarrow> scan_state" where
  "reference_loop E tok [] st = st"
| "reference_loop E tok (r # rs) st = reference_loop E tok rs (reference_step E tok r st)"

definition token_step :: "env \<Rightarrow> token \<Rightarrow> scan_state \<Rightarrow> scan_state" where
  "token_step E tok st =
     (if tok_dep tok = ''acomp'' then reference_loop E tok (head_children tok) st else st)"

fun token_loop :: "env \<Rightarrow> token list \<Rightarrow> scan_state \<Rightarrow> scan_state" where
  "token_loop E [] st = st"
| "token_loop E (tok # toks) st = token_loop E toks (token_step E tok st)"

definition init_state :: scan_state where
  "init_state = \<lparr>accomplishment_words = 0, effort_words = 0, flags = []\<rparr>"

definition syntactic_scan :: "env \<Rightarrow> document \<Rightarrow> scan_state" where
  "syntactic_scan E doc = token_loop E (nlp E (doc_text doc)) init_state"


subsection \<open>Adding the deduplicated flags, and the summary\<close>

definition tuple_flag :: "flag_tuple \<Rightarrow> flag" where
  "tuple_flag t =
     (case t of (start, stop, warning, suggestion, bias) \<Rightarrow>
        Flag start stop (Issue ''Effort vs Accomplishment'' warning (Some suggestion) bias))"

fun flags_loop :: "flag_tuple list \<Rightarrow> report \<Rightarrow> report" where
  "flags_loop [] report = report"
| "flags_loop (t # ts) report = flags_loop ts (add_flag report (tuple_flag t))"

definition ratio_summary :: "nat \<Rightarrow> nat \<Rightarrow> string" where
  "ratio_summary effort_count shown_count =
     ''This document has a high ratio of words suggesting ''
     @ ''effort ('' @ str_nat effort_count @ '') to words suggesting ''
     @ ''concrete accomplishment ('' @ str_nat shown_count @ '').''"

definition get_report :: "env \<Rightarrow> document \<Rightarrow> report" where
  "get_report E doc =
     (let report = Report ''Effort vs Accomplishment'';
          report = words_loop E (words_with_indices doc) report;
          st = syntactic_scan E doc;
          report = flags_loop (flags st) report
      in (if 0 < effort_words st \<and> effort_words st \<le> accomplishment_words st
          then set_summary report (ratio_summary (effort_words st) (effort_words st))
          else report))"

text \<open>The flags each pass contributes to the report, for stating the properties.\<close>

definition lexical_flags :: "env \<Rightarrow> document \<Rightarrow> flag list" where
  "lexical_flags E doc =
     report_flags (words_loop E (words_with_indices doc) (Report ''Effort vs Accomplishment''))"

definition syntactic_flags :: "env \<Rightarrow> document \<Rightarrow> flag list" where
  "syntactic_flags E doc = map tuple_flag (flags (syntactic_scan E doc))"

section \<open>identify_publications\<close>

text \<open>
  \<open>re.findall\<close> for the pattern \<open>"[^"]+"\<close>. \<open>match_here s\<close> tries the pattern at the
  start of \<open>s\<close>: a double quote, then the longest run of characters other than the double
  quote (which must not be empty), then a double quote. Giving back characters of the run
  cannot help, since the character after a shorter run is not a double quote. On success
  it returns the matched text and the remaining input. \<open>findall\<close> scans left to right:
  after a match it goes on behind the match, otherwise one character further.
\<close>

definition match_here :: "string \<Rightarrow> (string \<times> string) option" where
  "match_here s =
     (case s of
        [] \<Rightarrow> None
      | c # r \<Rightarrow>
          if c \<noteq> dquote then None
          else (let body = takeWhile (\<lambda>x. x \<noteq> dquote) r;
                    rest = dropWhile (\<lambda>x. x \<noteq> dquote) r
                in if body = [] then None
                   else (case rest of
                           [] \<Rightarrow> None
                         | _ # rest' \<Rightarrow> Some (dquote # body @ [dquote], rest'))))"

function findall :: "string \<Rightarrow> string list" where
  "findall [] = []"
| "findall (c # r) =
     (case match_here (c # r) of
        None \<Rightarrow> findall r
      | Some (m, rest) \<Rightarrow> m # findall rest)"
  by pat_completeness auto
termination
proof (relation "measure length")
  show "wf (measure length)" by simp
next
  fix c :: char and r show "(r, c # r) \<in> measure length" by simp
next
  fix c :: char and r x2 m rest
  assume "match_here (c # r) = Some x2" and "(m, rest) = x2"
  then have "match_here (c # r) = Some (m, rest)" by simp
  then obtain y where "dropWhile (\<lambda>x. x \<noteq> dquote) r = y # rest"
    by (auto simp: match_here_def Let_def split: if_splits list.splits)
  then have "length (y # rest) \<le> length r"
    by (metis length_dropWhile_le)
  then show "(rest, c # r) \<in> measure length" by simp
qed

text \<open>
  The dictionary is an association list in insertion order, as a Python dict is.
  \<open>add_match\<close> is the loop body: insert the key with \<open>0.0\<close> when it is absent, then add
  \<open>0.25\<close> to its entry.
\<close>

fun dict_set :: "string \<Rightarrow> rat \<Rightarrow> (string \<times> rat) list \<Rightarrow> (string \<times> rat) list" where
  "dict_set k v [] = [(k, v)]"
| "dict_set k v ((k', v') # d) = (if k' = k then (k', v) # d else (k', v') # dict_set k v d)"

definition add_match :: "string \<Rightarrow> (string \<times> rat) list \<Rightarrow> (string \<times> rat) list" where
  "add_match m potential_publications =
     (let potential_publications =
            (if map_of potential_publications m = None
             then dict_set m 0 potential_publications
             else potential_publications)
      in (case map_of potential_publications m of
            None \<Rightarrow> potential_publications
          | Some w \<Rightarrow> dict_set m (w + 1 / 4) potential_publications))"

fun matches_loop :: "string list \<Rightarrow> (string \<times> rat) list \<Rightarrow> (string \<times> rat) list" where
  "matches_loop [] potential_publications = potential_publications"
| "matches_loop (m # ms) potential_publications =
     matches_loop ms (add_match m potential_publications)"

definition identify_publications :: "document \<Rightarrow> (string \<times> rat) list" where
  "identify_publications doc = matches_loop (findall (doc_text doc)) []"

text \<open>
  What \<open>re.findall\<close> is documented to return, stated independently of the scanning
  function: the non-overlapping double-quoted substrings of the text, leftmost first.
  \<open>quoted m\<close> says that \<open>m\<close> is a double quote, a non-empty content free of double
  quotes, and a double quote. \<open>quoted_substrings t ms\<close> says that \<open>ms\<close> lists, from left
  to right, the quoted substrings of \<open>t\<close>, each being the first one to end in what
  remains of the text behind its predecessor.
\<close>

definition quoted :: "string \<Rightarrow> bool" where
  "quoted m =
     (case m of
        [] \<Rightarrow> False
      | a # r \<Rightarrow> a = dquote \<and> r \<noteq> [] \<and> last r = dquote
                 \<and> butlast r \<noteq> [] \<and> dquote \<notin> set (butlast r))"

definition has_quoted :: "string \<Rightarrow> bool" where
  "has_quoted t = (\<exists>m. quoted m \<and> sublist m t)"

inductive quoted_substrings :: "string \<Rightarrow> string list \<Rightarrow> bool" where
  no_match: "\<not> has_quoted t \<Longrightarrow> quoted_substrings t []"
| next_match: "quoted m \<Longrightarrow> \<not> has_quoted (pre @ butlast m) \<Longrightarrow> quoted_substrings rest ms
               \<Longrightarrow> quoted_substrings (pre @ m @ rest) (m # ms)"


section \<open>PublicationDetector\<close>

datatype error = ConfigurationError

record publication_detector =
  min_publications :: rat

text \<open>
  \<open>__init__(self, **kwargs)\<close>: \<open>kwargs\<close> maps argument names to values. The call of the
  base class initialiser takes no argument, so it cannot depend on \<open>min_publications\<close>;
  the abstract base class \<open>Detector\<close> is not in the source at hand and its initialiser is
  taken to do nothing. The result type has an error side so that a failing construction
  can be expressed; the source has no \<open>raise\<close>.
\<close>

definition PublicationDetector_init :: "(string \<rightharpoonup> rat) \<Rightarrow> error + publication_detector" where
  "PublicationDetector_init kwargs =
     Inr \<lparr>min_publications =
            (case kwargs ''min_publications'' of None \<Rightarrow> 1 / 2 | Some v \<Rightarrow> v)\<rparr>"

definition insufficient_summary :: string where
  "insufficient_summary =
     ''This document does not mention many publications. ''
     @ ''Try referencing more concrete publications or work ''
     @ ''byproducts, if possible.''"

text \<open>
  \<open>{:n}\<close> formats the integer with the current locale's digit grouping; under the
  default locale that is the plain decimal rendering.
\<close>

definition at_least_summary :: "rat \<Rightarrow> string" where
  "at_least_summary m =
     ''The text appears to mention at least '' @ str_int \<lceil>m\<rceil> @ '' publications.''"

definition one_publication_summary :: string where
  "one_publication_summary = ''The text appears to mention at least one publication.''"

text \<open>The \<open>print(summary)\<close> of the second branch writes to standard output only.\<close>

definition get_summary :: "publication_detector \<Rightarrow> document \<Rightarrow> string" where
  "get_summary self doc =
     (let pub_count = sum_list (map snd (identify_publications doc))
      in if pub_count < min_publications self then insufficient_summary
         else if min_publications self > 1 then at_least_summary (min_publications self)
         else one_publication_summary)"

definition publication_get_report :: "publication_detector \<Rightarrow> document \<Rightarrow> report" where
  "publication_get_report self doc =
     (let report = Report ''Publications''
      in set_summary report (get_summary self doc))"

section \<open>Auxiliary notions for the statements\<close>

text \<open>
  \<open>tuple_of E tok t\<close>: \<open>t\<close> is one of the two tuples the body of the inner loop can add
  for the token \<open>tok\<close>.
\<close>

definition tuple_of :: "env \<Rightarrow> token \<Rightarrow> flag_tuple \<Rightarrow> bool" where
  "tuple_of E tok t \<longleftrightarrow>
     (t = (sent_start_char tok, sent_end_char tok, accomplishment_warning (tok_text tok), '''',
           positive_result E) \<and> tok_text tok \<in> set (ACCOMPLISHMENT_WORDS E)
      \<or> t = (sent_start_char tok, sent_end_char tok, effort_warning (tok_text tok),
             effort_suggestion, negative_result E) \<and> tok_text tok \<in> set (EFFORT_WORDS E))"


text \<open>The weight a dictionary holds for a key, \<open>0\<close> when the key is absent.\<close>

definition weight :: "(string \<times> rat) list \<Rightarrow> string \<Rightarrow> rat" where
  "weight d k = (case map_of d k of None \<Rightarrow> 0 | Some w \<Rightarrow> w)"


text \<open>The number of double quotes in a string.\<close>

definition nq :: "string \<Rightarrow> nat" where
  "nq xs = length (filter (\<lambda>x. x = dquote) xs)"


text \<open>
  For stating which tuples Pass B reaches: \<open>valid_subject\<close> is the test on a child of the
  head, \<open>has_subject\<close> says that some child passes it, \<open>classified_tuple\<close> is the tuple
  built for a token (accomplishment list first, then effort list, none otherwise), and
  \<open>reached E toks t\<close> says that \<open>t\<close> is the tuple of some adjectival-complement token of
  \<open>toks\<close> that has a referenced subject.
\<close>

definition valid_subject :: "ref_token \<Rightarrow> bool" where
  "valid_subject r \<longleftrightarrow>
     ref_pos r \<in> set [''PRON'', ''PROPN''] \<and> ref_text r \<notin> set PRONOUNS_TO_IGNORE"

definition has_subject :: "token \<Rightarrow> bool" where
  "has_subject tok \<longleftrightarrow> list_ex valid_subject (head_children tok)"

definition classified_tuple :: "env \<Rightarrow> token \<Rightarrow> flag_tuple option" where
  "classified_tuple E tok =
     (if tok_text tok \<in> set (ACCOMPLISHMENT_WORDS E)
      then Some (sent_start_char tok, sent_end_char tok,
                 accomplishment_warning (tok_text tok), '''', positive_result E)
      else if tok_text tok \<in> set (EFFORT_WORDS E)
      then Some (sent_start_char tok, sent_end_char tok,
                 effort_warning (tok_text tok), effort_suggestion, negative_result E)
      else None)"

definition reached :: "env \<Rightarrow> token list \<Rightarrow> flag_tuple \<Rightarrow> bool" where
  "reached E toks t \<longleftrightarrow>
     list_ex (\<lambda>tok. tok_dep tok = ''acomp'' \<and> has_subject tok \<and> classified_tuple E tok = Some t)
       toks"


section \<open>Example inputs\<close>

text \<open>
  Concrete word lists and bias constants, and hand-written parses of four short texts.
  In each parse every token of a sentence hangs off the verb, so \<open>head.children\<close> is the
  same sequence for all of them.
\<close>

definition example_env :: "(string \<Rightarrow> token list) \<Rightarrow> env" where
  "example_env parser =
     \<lparr>EFFORT_WORDS = [''hard-working'', ''thorough''],
      ACCOMPLISHMENT_WORDS = [''groundbreaking'', ''outstanding''],
      negative_result = - 1,
      positive_result = 1,
      nlp = parser\<rparr>"

definition child :: "string \<Rightarrow> string \<Rightarrow> ref_token" where
  "child p t = \<lparr>ref_pos = p, ref_text = t\<rparr>"

definition mk_token :: "string \<Rightarrow> string \<Rightarrow> ref_token list \<Rightarrow> int \<Rightarrow> int \<Rightarrow> token" where
  "mk_token t d cs s e =
     \<lparr>tok_text = t, tok_dep = d, head_children = cs, sent_start_char = s, sent_end_char = e\<rparr>"





text \<open>\<open>Mary, she is thorough. She is groundbreaking.\<close>\<close>

definition mary_children :: "ref_token list" where
  "mary_children =
     [child ''PROPN'' ''Mary'', child ''PUNCT'' '','', child ''PRON'' ''she'',
      child ''ADJ'' ''thorough'', child ''PUNCT'' ''.'']"

definition she_children :: "string \<Rightarrow> string \<Rightarrow> ref_token list" where
  "she_children pronoun adjective =
     [child ''PRON'' pronoun, child ''ADJ'' adjective, child ''PUNCT'' ''.'']"

definition mary_parse :: "token list" where
  "mary_parse =
     [mk_token ''Mary'' ''npadvmod'' mary_children 0 22,
      mk_token '','' ''punct'' mary_children 0 22,
      mk_token ''she'' ''nsubj'' mary_children 0 22,
      mk_token ''is'' ''ROOT'' mary_children 0 22,
      mk_token ''thorough'' ''acomp'' mary_children 0 22,
      mk_token ''.'' ''punct'' mary_children 0 22,
      mk_token ''She'' ''nsubj'' (she_children ''She'' ''groundbreaking'') 23 45,
      mk_token ''is'' ''ROOT'' (she_children ''She'' ''groundbreaking'') 23 45,
      mk_token ''groundbreaking'' ''acomp'' (she_children ''She'' ''groundbreaking'') 23 45,
      mk_token ''.'' ''punct'' (she_children ''She'' ''groundbreaking'') 23 45]"

definition mary_doc :: document where
  "mary_doc =
     \<lparr>doc_text = ''Mary, she is thorough. She is groundbreaking.'',
      words_with_indices =
        [(''Mary'', 0, 4), (''she'', 6, 9), (''is'', 10, 12), (''thorough'', 13, 21),
         (''She'', 23, 26), (''is'', 27, 29), (''groundbreaking'', 30, 44)]\<rparr>"

text \<open>\<open>She is thorough. She is groundbreaking. He is outstanding.\<close>\<close>

definition ratio_parse :: "token list" where
  "ratio_parse =
     [mk_token ''She'' ''nsubj'' (she_children ''She'' ''thorough'') 0 16,
      mk_token ''is'' ''ROOT'' (she_children ''She'' ''thorough'') 0 16,
      mk_token ''thorough'' ''acomp'' (she_children ''She'' ''thorough'') 0 16,
      mk_token ''.'' ''punct'' (she_children ''She'' ''thorough'') 0 16,
      mk_token ''She'' ''nsubj'' (she_children ''She'' ''groundbreaking'') 17 39,
      mk_token ''is'' ''ROOT'' (she_children ''She'' ''groundbreaking'') 17 39,
      mk_token ''groundbreaking'' ''acomp'' (she_children ''She'' ''groundbreaking'') 17 39,
      mk_token ''.'' ''punct'' (she_children ''She'' ''groundbreaking'') 17 39,
      mk_token ''He'' ''nsubj'' (she_children ''He'' ''outstanding'') 40 58,
      mk_token ''is'' ''ROOT'' (she_children ''He'' ''outstanding'') 40 58,
      mk_token ''outstanding'' ''acomp'' (she_children ''He'' ''outstanding'') 40 58,
      mk_token ''.'' ''punct'' (she_children ''He'' ''outstanding'') 40 58]"

definition ratio_doc :: document where
  "ratio_doc =
     \<lparr>doc_text = ''She is thorough. She is groundbreaking. He is outstanding.'',
      words_with_indices =
        [(''She'', 0, 3), (''is'', 4, 6), (''thorough'', 7, 15),
         (''She'', 17, 20), (''is'', 21, 23), (''groundbreaking'', 24, 38),
         (''He'', 40, 42), (''is'', 43, 45), (''outstanding'', 46, 57)]\<rparr>"

text \<open>\<open>Thorough she is.\<close>\<close>

definition capital_children :: "ref_token list" where
  "capital_children = [child ''ADJ'' ''Thorough'', child ''PRON'' ''she'', child ''PUNCT'' ''.'']"

definition capital_acomp :: token where
  "capital_acomp = mk_token ''Thorough'' ''acomp'' capital_children 0 16"

definition capital_parse :: "token list" where
  "capital_parse =
     [capital_acomp,
      mk_token ''she'' ''nsubj'' capital_children 0 16,
      mk_token ''is'' ''ROOT'' capital_children 0 16,
      mk_token ''.'' ''punct'' capital_children 0 16]"

definition capital_doc :: document where
  "capital_doc =
     \<lparr>doc_text = ''Thorough she is.'',
      words_with_indices = [(''Thorough'', 0, 8), (''she'', 9, 12), (''is'', 13, 15)]\<rparr>"

text \<open>The text of the publication example, and a text without any double quote.\<close>

definition deep_learning_doc :: document where
  "deep_learning_doc =
     \<lparr>doc_text = ''He published '' @ [dquote] @ ''Deep Learning Advances'' @ [dquote]
                  @ '' and cited '' @ [dquote] @ ''Deep Learning Advances'' @ [dquote]
                  @ '' again.'',
      words_with_indices = []\<rparr>"

definition unquoted_doc :: document where
  "unquoted_doc = \<lparr>doc_text = ''She wrote many papers.'', words_with_indices = []\<rparr>"

section \<open>Pass A: the lexical flags\<close>

lemma word_step_flags:
  "report_flags (word_step E (word, start, stop) r) =
     report_flags r
     @ (if lower word \<in> set (EFFORT_WORDS E)
        then [Flag start stop (Issue ''Effort vs Accomplishment'' (effort_description word)
                (Some effort_fix) (negative_result E * (1 / 2)))] else [])
     @ (if lower word \<in> set (ACCOMPLISHMENT_WORDS E)
        then [Flag start stop (Issue ''Effort vs Accomplishment''
                (accomplishment_description word) None (positive_result E * (1 / 2)))] else [])"
  by (simp add: word_step_def add_flag_def Let_def)

lemma word_step_append:
  "report_flags (word_step E w r) = report_flags r @ report_flags (word_step E w (Report n))"
  by (cases w) (simp add: word_step_flags Report_def)

lemma words_loop_concat:
  "report_flags (words_loop E ws r) =
     report_flags r @ concat (map (\<lambda>w. report_flags (word_step E w (Report n))) ws)"
proof (induction ws arbitrary: r)
  case Nil
  then show ?case by simp
next
  case (Cons w ws)
  show ?case
    using word_step_append [of E w r n] by (simp add: Cons.IH)
qed

lemma lexical_flags_concat:
  "lexical_flags E doc =
     concat (map (\<lambda>w. report_flags (word_step E w (Report ''''))) (words_with_indices doc))"
  by (simp add: lexical_flags_def words_loop_concat [where n = "''''"] Report_def)

lemma word_step_other:
  "report_name (word_step E w r) = report_name r"
  "report_summary (word_step E w r) = report_summary r"
  by (cases w; simp add: word_step_def add_flag_def Let_def)+

lemma words_loop_other:
  "report_name (words_loop E ws r) = report_name r"
  "report_summary (words_loop E ws r) = report_summary r"
  by (induction ws arbitrary: r; simp add: word_step_other)+

lemma flags_loop_flags:
  "report_flags (flags_loop ts r) = report_flags r @ map tuple_flag ts"
  by (induction ts arbitrary: r) (simp_all add: add_flag_def)

lemma get_report_flags:
  "report_flags (get_report E doc) = lexical_flags E doc @ syntactic_flags E doc"
  by (simp add: get_report_def Let_def set_summary_def flags_loop_flags lexical_flags_def
      syntactic_flags_def)

text \<open>
  Claim C4. For every (word, start, stop) triple of the document, Pass A adds a flag at
  (start, stop) with the fixed non-empty fix and half the negative bias constant when the
  lowercased word is in the effort list, and a flag at (start, stop) with no fix and half
  the positive bias constant when it is in the accomplishment list; these are all the
  lexical flags, one per triple and list, and they come first in the report.
\<close>

theorem lexical_flags_characterisation:
  "report_flags (get_report E doc) = lexical_flags E doc @ syntactic_flags E doc
   \<and> (f \<in> set (lexical_flags E doc) \<longleftrightarrow>
        (\<exists>word start stop. (word, start, stop) \<in> set (words_with_indices doc) \<and>
           (lower word \<in> set (EFFORT_WORDS E) \<and>
              f = Flag start stop
                    (Issue ''Effort vs Accomplishment'' (effort_description word)
                       (Some effort_fix) (negative_result E * (1 / 2)))
            \<or> lower word \<in> set (ACCOMPLISHMENT_WORDS E) \<and>
              f = Flag start stop
                    (Issue ''Effort vs Accomplishment'' (accomplishment_description word)
                       None (positive_result E * (1 / 2))))))
   \<and> length (lexical_flags E doc) =
        length (filter (\<lambda>w. lower (fst w) \<in> set (EFFORT_WORDS E)) (words_with_indices doc))
        + length (filter (\<lambda>w. lower (fst w) \<in> set (ACCOMPLISHMENT_WORDS E))
                    (words_with_indices doc))
   \<and> effort_fix \<noteq> ''''"
proof (intro conjI)
  show "report_flags (get_report E doc) = lexical_flags E doc @ syntactic_flags E doc"
    by (rule get_report_flags)
next
  have "f \<in> set (lexical_flags E doc) \<longleftrightarrow>
          (\<exists>w \<in> set (words_with_indices doc). f \<in> set (report_flags (word_step E w (Report ''''))))"
    by (simp add: lexical_flags_concat)
  also have "\<dots> \<longleftrightarrow>
          (\<exists>word start stop. (word, start, stop) \<in> set (words_with_indices doc) \<and>
             f \<in> set (report_flags (word_step E (word, start, stop) (Report ''''))))"
    by auto
  also have "\<dots> \<longleftrightarrow>
        (\<exists>word start stop. (word, start, stop) \<in> set (words_with_indices doc) \<and>
           (lower word \<in> set (EFFORT_WORDS E) \<and>
              f = Flag start stop
                    (Issue ''Effort vs Accomplishment'' (effort_description word)
                       (Some effort_fix) (negative_result E * (1 / 2)))
            \<or> lower word \<in> set (ACCOMPLISHMENT_WORDS E) \<and>
              f = Flag start stop
                    (Issue ''Effort vs Accomplishment'' (accomplishment_description word)
                       None (positive_result E * (1 / 2)))))"
    unfolding word_step_flags by (simp add: Report_def) blast
  finally show "f \<in> set (lexical_flags E doc) \<longleftrightarrow>
        (\<exists>word start stop. (word, start, stop) \<in> set (words_with_indices doc) \<and>
           (lower word \<in> set (EFFORT_WORDS E) \<and>
              f = Flag start stop
                    (Issue ''Effort vs Accomplishment'' (effort_description word)
                       (Some effort_fix) (negative_result E * (1 / 2)))
            \<or> lower word \<in> set (ACCOMPLISHMENT_WORDS E) \<and>
              f = Flag start stop
                    (Issue ''Effort vs Accomplishment'' (accomplishment_description word)
                       None (positive_result E * (1 / 2)))))" .
next
  have "\<And>ws. length (concat (map (\<lambda>w. report_flags (word_step E w (Report ''''))) ws)) =
        length (filter (\<lambda>w. lower (fst w) \<in> set (EFFORT_WORDS E)) ws)
        + length (filter (\<lambda>w. lower (fst w) \<in> set (ACCOMPLISHMENT_WORDS E)) ws)"
  proof -
    fix ws show "length (concat (map (\<lambda>w. report_flags (word_step E w (Report ''''))) ws)) =
        length (filter (\<lambda>w. lower (fst w) \<in> set (EFFORT_WORDS E)) ws)
        + length (filter (\<lambda>w. lower (fst w) \<in> set (ACCOMPLISHMENT_WORDS E)) ws)"
    proof (induction ws)
      case Nil
      then show ?case by simp
    next
      case (Cons w ws)
      obtain word start stop where w: "w = (word, start, stop)" by (cases w) auto
      show ?case unfolding w using Cons.IH by (simp add: word_step_flags Report_def)
    qed
  qed
  then show "length (lexical_flags E doc) =
        length (filter (\<lambda>w. lower (fst w) \<in> set (EFFORT_WORDS E)) (words_with_indices doc))
        + length (filter (\<lambda>w. lower (fst w) \<in> set (ACCOMPLISHMENT_WORDS E))
                    (words_with_indices doc))"
    by (simp add: lexical_flags_concat)
next
  show "effort_fix \<noteq> ''''" by (simp add: effort_fix_def)
qed


section \<open>Pass B: the syntactic flags\<close>



lemma reference_loop_no_list_word:
  "tok_text tok \<notin> set (ACCOMPLISHMENT_WORDS E) \<Longrightarrow> tok_text tok \<notin> set (EFFORT_WORDS E)
   \<Longrightarrow> reference_loop E tok rs st = st"
  by (induction rs arbitrary: st) (simp_all add: reference_step_def)



lemma reference_step_cases:
  "reference_step E tok r st = st
   \<or> tok_text tok \<in> set (ACCOMPLISHMENT_WORDS E)
       \<and> reference_step E tok r st =
           st\<lparr>accomplishment_words := accomplishment_words st + 1,
              flags := List.insert
                         (sent_start_char tok, sent_end_char tok,
                          accomplishment_warning (tok_text tok), '''', positive_result E)
                         (flags st)\<rparr>
   \<or> tok_text tok \<in> set (EFFORT_WORDS E)
       \<and> reference_step E tok r st =
           st\<lparr>effort_words := effort_words st + 1,
              flags := List.insert
                         (sent_start_char tok, sent_end_char tok,
                          effort_warning (tok_text tok), effort_suggestion, negative_result E)
                         (flags st)\<rparr>"
  unfolding reference_step_def by presburger

lemma reference_step_flags:
  assumes t: "t \<in> set (flags (reference_step E tok r st))"
  shows "t \<in> set (flags st) \<or> tuple_of E tok t"
  using reference_step_cases [of E tok r st]
proof (elim disjE conjE)
  assume "reference_step E tok r st = st"
  with t show ?thesis by simp
next
  assume "tok_text tok \<in> set (ACCOMPLISHMENT_WORDS E)"
    and "reference_step E tok r st =
           st\<lparr>accomplishment_words := accomplishment_words st + 1,
              flags := List.insert
                         (sent_start_char tok, sent_end_char tok,
                          accomplishment_warning (tok_text tok), '''', positive_result E)
                         (flags st)\<rparr>"
  with t show ?thesis unfolding tuple_of_def by (simp del: List.insert_def) blast
next
  assume "tok_text tok \<in> set (EFFORT_WORDS E)"
    and "reference_step E tok r st =
           st\<lparr>effort_words := effort_words st + 1,
              flags := List.insert
                         (sent_start_char tok, sent_end_char tok,
                          effort_warning (tok_text tok), effort_suggestion, negative_result E)
                         (flags st)\<rparr>"
  with t show ?thesis unfolding tuple_of_def by (simp del: List.insert_def) blast
qed

lemma reference_loop_flags:
  "t \<in> set (flags (reference_loop E tok rs st)) \<Longrightarrow> t \<in> set (flags st) \<or> tuple_of E tok t"
proof (induction rs arbitrary: st)
  case Nil
  then show ?case by simp
next
  case (Cons r rs)
  from Cons.prems have "t \<in> set (flags (reference_loop E tok rs (reference_step E tok r st)))"
    by simp
  then have "t \<in> set (flags (reference_step E tok r st)) \<or> tuple_of E tok t"
    by (rule Cons.IH)
  then show ?case using reference_step_flags by blast
qed

lemma token_loop_flags:
  "t \<in> set (flags (token_loop E toks st)) \<Longrightarrow>
     t \<in> set (flags st) \<or> (\<exists>tok \<in> set toks. tok_dep tok = ''acomp'' \<and> tuple_of E tok t)"
proof (induction toks arbitrary: st)
  case Nil
  then show ?case by simp
next
  case (Cons tok toks)
  from Cons.prems have "t \<in> set (flags (token_loop E toks (token_step E tok st)))"
    by simp
  then have "t \<in> set (flags (token_step E tok st))
             \<or> (\<exists>tok \<in> set toks. tok_dep tok = ''acomp'' \<and> tuple_of E tok t)"
    by (rule Cons.IH)
  moreover have "t \<in> set (flags (token_step E tok st)) \<Longrightarrow>
                 t \<in> set (flags st) \<or> (tok_dep tok = ''acomp'' \<and> tuple_of E tok t)"
    using reference_loop_flags [of t E tok "head_children tok" st]
    by (auto simp: token_step_def split: if_splits)
  ultimately show ?case by auto
qed

text \<open>
  Claim C5. Every flag that Pass B adds has the start and end offset of the sentence of an
  adjectival-complement token of the parse, and its explanation names the text of that
  token, which is in one of the two word lists.
\<close>

theorem syntactic_flag_sentence_span:
  assumes "f \<in> set (syntactic_flags E doc)"
  shows "\<exists>tok \<in> set (nlp E (doc_text doc)).
           tok_dep tok = ''acomp''
           \<and> flag_start f = sent_start_char tok \<and> flag_stop f = sent_end_char tok
           \<and> (issue_description (flag_issue f) = accomplishment_warning (tok_text tok)
                \<and> tok_text tok \<in> set (ACCOMPLISHMENT_WORDS E)
              \<or> issue_description (flag_issue f) = effort_warning (tok_text tok)
                \<and> tok_text tok \<in> set (EFFORT_WORDS E))"
proof -
  from assms obtain t where t: "t \<in> set (flags (syntactic_scan E doc))" and f: "f = tuple_flag t"
    by (auto simp: syntactic_flags_def)
  from t have "\<exists>tok \<in> set (nlp E (doc_text doc)). tok_dep tok = ''acomp'' \<and> tuple_of E tok t"
    using token_loop_flags [of t E "nlp E (doc_text doc)" init_state]
    by (simp add: syntactic_scan_def init_state_def)
  then obtain tok where tok: "tok \<in> set (nlp E (doc_text doc))" "tok_dep tok = ''acomp''"
    "tuple_of E tok t" by blast
  from tok(3) have "flag_start f = sent_start_char tok \<and> flag_stop f = sent_end_char tok
           \<and> (issue_description (flag_issue f) = accomplishment_warning (tok_text tok)
                \<and> tok_text tok \<in> set (ACCOMPLISHMENT_WORDS E)
              \<or> issue_description (flag_issue f) = effort_warning (tok_text tok)
                \<and> tok_text tok \<in> set (EFFORT_WORDS E))"
    unfolding f tuple_of_def
    by (elim disjE conjE) (simp_all add: tuple_flag_def Flag_def Issue_def)
  with tok(1,2) show ?thesis by blast
qed

theorem syntactic_flag_sentence_span_witness:
  "tuple_flag (0, 22, effort_warning ''thorough'', effort_suggestion, - 1)
     \<in> set (syntactic_flags (example_env (\<lambda>t. mary_parse)) mary_doc)
   \<and> (\<exists>tok \<in> set (nlp (example_env (\<lambda>t. mary_parse)) (doc_text mary_doc)).
        tok_dep tok = ''acomp''
        \<and> sent_start_char tok = 0 \<and> sent_end_char tok = 22)"
proof -
  let ?f = "tuple_flag (0, 22, effort_warning ''thorough'', effort_suggestion, - 1)"
  have h: "?f \<in> set (syntactic_flags (example_env (\<lambda>t. mary_parse)) mary_doc)"
    by code_simp
  have s: "flag_start ?f = 0" "flag_stop ?f = 22"
    by (simp_all add: tuple_flag_def Flag_def)
  from syntactic_flag_sentence_span [OF h] obtain tok
    where tok: "tok \<in> set (nlp (example_env (\<lambda>t. mary_parse)) (doc_text mary_doc))"
      "tok_dep tok = ''acomp''"
      "flag_start ?f = sent_start_char tok" "flag_stop ?f = sent_end_char tok"
    by blast
  from tok(3,4) have "sent_start_char tok = 0" "sent_end_char tok = 22"
    unfolding s by simp_all
  with tok(1,2) h show ?thesis by blast
qed

lemma reference_step_distinct:
  "distinct (flags st) \<Longrightarrow> distinct (flags (reference_step E tok r st))"
  by (simp add: reference_step_def)

lemma reference_loop_distinct:
  "distinct (flags st) \<Longrightarrow> distinct (flags (reference_loop E tok rs st))"
  by (induction rs arbitrary: st) (simp_all add: reference_step_distinct)

lemma token_loop_distinct:
  "distinct (flags st) \<Longrightarrow> distinct (flags (token_loop E toks st))"
  by (induction toks arbitrary: st) (simp_all add: token_step_def reference_loop_distinct)

lemma inj_tuple_flag: "inj tuple_flag"
  by (rule injI) (auto simp: tuple_flag_def Flag_def Issue_def)

lemma reference_step_set:
  "set (flags (reference_step E tok r st)) =
     set (flags st) \<union> (if valid_subject r then set_option (classified_tuple E tok) else {})"
  unfolding reference_step_def valid_subject_def classified_tuple_def
  by (simp del: set_simps)

lemma reference_loop_set:
  "set (flags (reference_loop E tok rs st)) =
     set (flags st) \<union> (if list_ex valid_subject rs then set_option (classified_tuple E tok) else {})"
proof (induction rs arbitrary: st)
  case Nil
  show ?case by simp
next
  case (Cons r rs)
  show ?case
    unfolding reference_loop.simps Cons.IH reference_step_set by auto
qed

lemma token_step_set:
  "set (flags (token_step E tok st)) =
     set (flags st) \<union> {t. tok_dep tok = ''acomp'' \<and> has_subject tok \<and> classified_tuple E tok = Some t}"
  unfolding token_step_def has_subject_def
  by (auto simp: reference_loop_set split: if_splits)

lemma token_loop_set:
  "set (flags (token_loop E toks st)) = set (flags st) \<union> {t. reached E toks t}"
proof (induction toks arbitrary: st)
  case Nil
  show ?case by (simp add: reached_def)
next
  case (Cons tok toks)
  show ?case
    unfolding token_loop.simps Cons.IH token_step_set
    by (auto simp: reached_def)
qed

lemma syntactic_scan_reached:
  "t \<in> set (flags (syntactic_scan E doc)) \<longleftrightarrow> reached E (nlp E (doc_text doc)) t"
  by (simp add: syntactic_scan_def token_loop_set init_state_def)

lemma lexical_flag_fix:
  assumes "f \<in> set (lexical_flags E doc)"
  shows "issue_fix (flag_issue f) = Some effort_fix \<or> issue_fix (flag_issue f) = None"
proof -
  from assms obtain w where "f \<in> set (report_flags (word_step E w (Report '''')))"
    unfolding lexical_flags_concat by auto
  moreover obtain word start stop where "w = (word, start, stop)" by (cases w)
  ultimately show ?thesis
    by (auto simp: word_step_flags Report_def Flag_def Issue_def split: if_splits)
qed

lemma classified_tuple_fix:
  assumes "classified_tuple E tok = Some t"
  shows "issue_fix (flag_issue (tuple_flag t)) = Some ''''
         \<or> issue_fix (flag_issue (tuple_flag t)) = Some effort_suggestion"
  using assms
  by (auto simp: classified_tuple_def tuple_flag_def Flag_def Issue_def split: if_splits)

lemma fix_strings_differ: "effort_fix \<noteq> ''''" "effort_fix \<noteq> effort_suggestion"
  by (simp_all add: effort_fix_def effort_suggestion_def)

lemma reached_not_lexical:
  assumes "reached E toks t"
  shows "tuple_flag t \<notin> set (lexical_flags E doc)"
proof
  assume "tuple_flag t \<in> set (lexical_flags E doc)"
  then have l: "issue_fix (flag_issue (tuple_flag t)) = Some effort_fix
                \<or> issue_fix (flag_issue (tuple_flag t)) = None"
    by (rule lexical_flag_fix)
  from assms obtain tok where "classified_tuple E tok = Some t"
    unfolding reached_def list_ex_iff by blast
  then have "issue_fix (flag_issue (tuple_flag t)) = Some ''''
         \<or> issue_fix (flag_issue (tuple_flag t)) = Some effort_suggestion"
    by (rule classified_tuple_fix)
  with l fix_strings_differ show False by auto
qed

lemma count_list_distinct:
  "distinct xs \<Longrightarrow> x \<in> set xs \<Longrightarrow> count_list xs x = 1"
  by (induction xs) auto

text \<open>
  Claim C6. The tuples collected by Pass B are pairwise different and are exactly the
  tuples reached through some adjectival-complement token with a referenced subject; the
  flags built from them are pairwise different too and are appended to the report after
  the lexical flags. Every reached tuple, however many tokens and referenced subjects lead
  to it, occurs exactly once among the syntactic flags and exactly once in the whole
  report.
\<close>

theorem syntactic_flags_exactly_once:
  "report_flags (get_report E doc) = lexical_flags E doc @ syntactic_flags E doc
   \<and> distinct (flags (syntactic_scan E doc))
   \<and> distinct (syntactic_flags E doc)
   \<and> (\<forall>t. t \<in> set (flags (syntactic_scan E doc)) \<longleftrightarrow> reached E (nlp E (doc_text doc)) t)
   \<and> (\<forall>f. f \<in> set (syntactic_flags E doc)
            \<longleftrightarrow> (\<exists>t. reached E (nlp E (doc_text doc)) t \<and> f = tuple_flag t))
   \<and> (\<forall>t. reached E (nlp E (doc_text doc)) t \<longrightarrow>
            count_list (syntactic_flags E doc) (tuple_flag t) = 1
            \<and> count_list (report_flags (get_report E doc)) (tuple_flag t) = 1)"
proof (intro conjI allI impI)
  show g: "report_flags (get_report E doc) = lexical_flags E doc @ syntactic_flags E doc"
    by (rule get_report_flags)
  show d: "distinct (flags (syntactic_scan E doc))"
    by (simp add: syntactic_scan_def token_loop_distinct init_state_def)
  show ds: "distinct (syntactic_flags E doc)"
  proof -
    have "inj_on tuple_flag (set (flags (syntactic_scan E doc)))"
      using inj_tuple_flag by (rule inj_on_subset) simp
    with d show ?thesis
      unfolding syntactic_flags_def by (simp add: distinct_map)
  qed
  show "t \<in> set (flags (syntactic_scan E doc)) \<longleftrightarrow> reached E (nlp E (doc_text doc)) t" for t
    by (rule syntactic_scan_reached)
  show "f \<in> set (syntactic_flags E doc)
          \<longleftrightarrow> (\<exists>t. reached E (nlp E (doc_text doc)) t \<and> f = tuple_flag t)" for f
  proof -
    have "f \<in> set (syntactic_flags E doc)
            \<longleftrightarrow> (\<exists>t \<in> set (flags (syntactic_scan E doc)). f = tuple_flag t)"
      unfolding syntactic_flags_def by (simp add: image_iff)
    then show ?thesis
      unfolding Bex_def syntactic_scan_reached by simp
  qed
  fix t assume r: "reached E (nlp E (doc_text doc)) t"
  then have "tuple_flag t \<in> set (syntactic_flags E doc)"
    unfolding syntactic_flags_def by (simp add: syntactic_scan_reached)
  with ds show c: "count_list (syntactic_flags E doc) (tuple_flag t) = 1"
    by (rule count_list_distinct)
  from r have "tuple_flag t \<notin> set (lexical_flags E doc)"
    by (rule reached_not_lexical)
  with c show "count_list (report_flags (get_report E doc)) (tuple_flag t) = 1"
    unfolding g by simp
qed

theorem syntactic_flags_exactly_once_witness:
  "reached (example_env (\<lambda>t. mary_parse))
     (nlp (example_env (\<lambda>t. mary_parse)) (doc_text mary_doc))
     (0, 22, effort_warning ''thorough'', effort_suggestion, - 1)
   \<and> map ref_text (filter valid_subject mary_children) = [''Mary'', ''she'']
   \<and> effort_words (syntactic_scan (example_env (\<lambda>t. mary_parse)) mary_doc) = 2
   \<and> accomplishment_words (syntactic_scan (example_env (\<lambda>t. mary_parse)) mary_doc) = 1
   \<and> length (syntactic_flags (example_env (\<lambda>t. mary_parse)) mary_doc) = 2
   \<and> count_list (syntactic_flags (example_env (\<lambda>t. mary_parse)) mary_doc)
        (tuple_flag (0, 22, effort_warning ''thorough'', effort_suggestion, - 1)) = 1
   \<and> count_list (report_flags (get_report (example_env (\<lambda>t. mary_parse)) mary_doc))
        (tuple_flag (0, 22, effort_warning ''thorough'', effort_suggestion, - 1)) = 1"
proof -
  have r: "reached (example_env (\<lambda>t. mary_parse))
     (nlp (example_env (\<lambda>t. mary_parse)) (doc_text mary_doc))
     (0, 22, effort_warning ''thorough'', effort_suggestion, - 1)"
    by code_simp
  have s: "map ref_text (filter valid_subject mary_children) = [''Mary'', ''she'']"
    by code_simp
  have e: "effort_words (syntactic_scan (example_env (\<lambda>t. mary_parse)) mary_doc) = 2"
    by code_simp
  have a: "accomplishment_words (syntactic_scan (example_env (\<lambda>t. mary_parse)) mary_doc) = 1"
    by code_simp
  have l: "length (syntactic_flags (example_env (\<lambda>t. mary_parse)) mary_doc) = 2"
    by code_simp
  from syntactic_flags_exactly_once [of "example_env (\<lambda>t. mary_parse)" mary_doc] r
  have "count_list (syntactic_flags (example_env (\<lambda>t. mary_parse)) mary_doc)
        (tuple_flag (0, 22, effort_warning ''thorough'', effort_suggestion, - 1)) = 1
   \<and> count_list (report_flags (get_report (example_env (\<lambda>t. mary_parse)) mary_doc))
        (tuple_flag (0, 22, effort_warning ''thorough'', effort_suggestion, - 1)) = 1"
    by blast
  with r s e a l show ?thesis by blast
qed

text \<open>
  Claim C1. On a document whose parse has one effort-classified and two
  accomplishment-classified adjectival complements the summary is set, but it prints the
  effort count in both places: it reads (1) and (1), where the counts are 1 and 2.
\<close>

theorem effort_summary_repeats_effort_count:
  "accomplishment_words (syntactic_scan (example_env (\<lambda>t. ratio_parse)) ratio_doc) = 2
   \<and> effort_words (syntactic_scan (example_env (\<lambda>t. ratio_parse)) ratio_doc) = 1
   \<and> report_summary (get_report (example_env (\<lambda>t. ratio_parse)) ratio_doc) =
       Some (''This document has a high ratio of words suggesting effort (1) ''
             @ ''to words suggesting concrete accomplishment (1).'')
   \<and> report_summary (get_report (example_env (\<lambda>t. ratio_parse)) ratio_doc) \<noteq>
       Some (''This document has a high ratio of words suggesting effort (1) ''
             @ ''to words suggesting concrete accomplishment (2).'')"
  by code_simp

text \<open>
  Claim C10. Pass A tests the lowercased word, Pass B the raw token text. On the text
  \<open>Thorough she is.\<close>, whose adjectival complement \<open>Thorough\<close> has the pronoun \<open>she\<close>
  among the children of its head, Pass A adds a lexical flag at (0, 8) and Pass B adds
  no flag.
\<close>

theorem case_conventions_differ:
  "(''Thorough'', 0, 8) \<in> set (words_with_indices capital_doc)
   \<and> capital_acomp \<in> set (nlp (example_env (\<lambda>t. capital_parse)) (doc_text capital_doc))
   \<and> tok_text capital_acomp = ''Thorough'' \<and> tok_dep capital_acomp = ''acomp''
   \<and> child ''PRON'' ''she'' \<in> set (head_children capital_acomp)
   \<and> ''she'' \<notin> set PRONOUNS_TO_IGNORE
   \<and> lower ''Thorough'' \<in> set (EFFORT_WORDS (example_env (\<lambda>t. capital_parse)))
   \<and> ''Thorough'' \<notin> set (EFFORT_WORDS (example_env (\<lambda>t. capital_parse)))
   \<and> ''Thorough'' \<notin> set (ACCOMPLISHMENT_WORDS (example_env (\<lambda>t. capital_parse)))
   \<and> lexical_flags (example_env (\<lambda>t. capital_parse)) capital_doc =
       [Flag 0 8 (Issue ''Effort vs Accomplishment'' (effort_description ''Thorough'')
                    (Some effort_fix) (- 1 * (1 / 2)))]
   \<and> syntactic_flags (example_env (\<lambda>t. capital_parse)) capital_doc = []
   \<and> report_flags (get_report (example_env (\<lambda>t. capital_parse)) capital_doc) =
       [Flag 0 8 (Issue ''Effort vs Accomplishment'' (effort_description ''Thorough'')
                    (Some effort_fix) (- 1 * (1 / 2)))]"
  by code_simp


section \<open>The publication dictionary and the summary\<close>

lemma map_of_dict_set: "map_of (dict_set k v d) = (map_of d)(k \<mapsto> v)"
  by (induction d) (auto simp: fun_eq_iff)

lemma keys_dict_set: "fst ` set (dict_set k v d) = insert k (fst ` set d)"
proof -
  have "fst ` set (dict_set k v d) = dom (map_of (dict_set k v d))"
    by (simp add: dom_map_of_conv_image_fst)
  also have "\<dots> = insert k (dom (map_of d))"
    by (simp add: map_of_dict_set)
  finally show ?thesis
    by (simp add: dom_map_of_conv_image_fst)
qed

lemma distinct_dict_set:
  "distinct (map fst d) \<Longrightarrow> distinct (map fst (dict_set k v d))"
proof (induction d)
  case Nil
  then show ?case by simp
next
  case (Cons p d)
  obtain k' v' where p: "p = (k', v')" by (cases p)
  show ?case
  proof (cases "k' = k")
    case True
    with Cons.prems show ?thesis by (simp add: p)
  next
    case False
    from Cons.prems have "k' \<notin> fst ` set d" and "distinct (map fst d)"
      by (simp_all add: p)
    with False Cons.IH show ?thesis
      by (simp add: p keys_dict_set)
  qed
qed

lemma sum_dict_set:
  "sum_list (map snd (dict_set k v d)) =
     sum_list (map snd d) - (case map_of d k of None \<Rightarrow> 0 | Some w \<Rightarrow> w) + v"
  by (induction d) auto

lemma map_of_add_match:
  "map_of (add_match m d) = (map_of d)(m \<mapsto> weight d m + 1 / 4)"
  by (cases "map_of d m") (simp_all add: add_match_def map_of_dict_set weight_def fun_eq_iff)

lemma distinct_add_match:
  "distinct (map fst d) \<Longrightarrow> distinct (map fst (add_match m d))"
  by (cases "map_of d m") (simp_all add: add_match_def map_of_dict_set distinct_dict_set)

lemma sum_add_match:
  "sum_list (map snd (add_match m d)) = sum_list (map snd d) + 1 / 4"
  by (cases "map_of d m") (simp_all add: add_match_def map_of_dict_set sum_dict_set)

lemma map_of_matches_loop:
  "map_of (matches_loop ms d) k =
     (if k \<in> set ms \<or> k \<in> dom (map_of d)
      then Some (weight d k + of_nat (count_list ms k) * (1 / 4))
      else None)"
proof (induction ms arbitrary: d)
  case Nil
  then show ?case by (auto simp: weight_def)
next
  case (Cons m ms)
  show ?case
    by (simp add: Cons.IH map_of_add_match weight_def algebra_simps dom_def)
qed

lemma distinct_matches_loop:
  "distinct (map fst d) \<Longrightarrow> distinct (map fst (matches_loop ms d))"
  by (induction ms arbitrary: d) (simp_all add: distinct_add_match)

lemma sum_matches_loop:
  "sum_list (map snd (matches_loop ms d)) = sum_list (map snd d) + of_nat (length ms) * (1 / 4)"
  by (induction ms arbitrary: d) (simp_all add: sum_add_match algebra_simps)

lemma pub_count:
  "sum_list (map snd (identify_publications doc)) =
     of_nat (length (findall (doc_text doc))) * (1 / 4)"
  by (simp add: identify_publications_def sum_matches_loop)

lemma identify_publications_lookup:
  "map_of (identify_publications doc) k =
     (if k \<in> set (findall (doc_text doc))
      then Some (of_nat (count_list (findall (doc_text doc)) k) * (1 / 4))
      else None)"
  by (simp add: identify_publications_def map_of_matches_loop weight_def)

lemma identify_publications_distinct:
  "distinct (map fst (identify_publications doc))"
  by (simp add: identify_publications_def distinct_matches_loop)

text \<open>
  Claim C7. \<open>get_summary\<close> returns the insufficient-publications message when the sum of
  the weights, a quarter of the number of matches, is below \<open>min_publications\<close>; otherwise
  the at-least-\<open>ceil(min_publications)\<close> message when \<open>min_publications\<close> exceeds 1;
  otherwise the at-least-one message. A detector built without arguments has
  \<open>min_publications = 0.5\<close> and gives the first message on a text without a match.
\<close>

theorem get_summary_cases:
  "get_summary self doc =
     (if of_nat (length (findall (doc_text doc))) * (1 / 4) < min_publications self
      then insufficient_summary
      else if min_publications self > 1
      then ''The text appears to mention at least '' @ str_int \<lceil>min_publications self\<rceil>
           @ '' publications.''
      else one_publication_summary)
   \<and> (\<forall>d. PublicationDetector_init Map.empty = Inr d \<and> findall (doc_text doc) = []
          \<longrightarrow> min_publications d = 1 / 2 \<and> get_summary d doc = insufficient_summary)"
proof (intro conjI allI impI)
  show "get_summary self doc =
     (if of_nat (length (findall (doc_text doc))) * (1 / 4) < min_publications self
      then insufficient_summary
      else if min_publications self > 1
      then ''The text appears to mention at least '' @ str_int \<lceil>min_publications self\<rceil>
           @ '' publications.''
      else one_publication_summary)"
    unfolding get_summary_def Let_def pub_count at_least_summary_def by (rule refl)
next
  fix d assume a: "PublicationDetector_init Map.empty = Inr d \<and> findall (doc_text doc) = []"
  then show "min_publications d = 1 / 2"
    by (auto simp: PublicationDetector_init_def)
  with a show "get_summary d doc = insufficient_summary"
    unfolding get_summary_def Let_def pub_count by simp
qed

theorem get_summary_cases_witness:
  "PublicationDetector_init Map.empty = Inr \<lparr>min_publications = 1 / 2\<rparr>
   \<and> findall (doc_text unquoted_doc) = []
   \<and> get_summary \<lparr>min_publications = 1 / 2\<rparr> unquoted_doc = insufficient_summary
   \<and> get_summary \<lparr>min_publications = 3 / 2\<rparr> deep_learning_doc = insufficient_summary
   \<and> get_summary \<lparr>min_publications = 1 / 2\<rparr> deep_learning_doc = one_publication_summary"
proof -
  have i: "PublicationDetector_init Map.empty = Inr \<lparr>min_publications = 1 / 2\<rparr>"
    by (simp add: PublicationDetector_init_def)
  have f: "findall (doc_text unquoted_doc) = []"
    by code_simp
  have g: "length (findall (doc_text deep_learning_doc)) = 2"
    by code_simp
  from get_summary_cases [of "\<lparr>min_publications = 1 / 2\<rparr>" unquoted_doc] i f
  have "get_summary \<lparr>min_publications = 1 / 2\<rparr> unquoted_doc = insufficient_summary"
    by blast
  moreover from get_summary_cases [of "\<lparr>min_publications = 3 / 2\<rparr>" deep_learning_doc]
  have "get_summary \<lparr>min_publications = 3 / 2\<rparr> deep_learning_doc = insufficient_summary"
    unfolding g by simp
  moreover from get_summary_cases [of "\<lparr>min_publications = 1 / 2\<rparr>" deep_learning_doc]
  have "get_summary \<lparr>min_publications = 1 / 2\<rparr> deep_learning_doc = one_publication_summary"
    unfolding g by simp
  ultimately show ?thesis using i f by blast
qed

text \<open>
  Claim C8. The report of the publication detector has no flags; only its summary and its
  category label are set.
\<close>

theorem publication_report_no_flags:
  "report_flags (publication_get_report self doc) = []
   \<and> report_summary (publication_get_report self doc) = Some (get_summary self doc)
   \<and> report_name (publication_get_report self doc) = ''Publications''"
  by (simp add: publication_get_report_def Report_def set_summary_def)

text \<open>
  Claim C9. (as stated, refuted) Constructing the detector with \<open>min_publications = -1\<close>
  does not fail: it returns a detector that stores \<open>-1\<close>.
\<close>

theorem negative_min_publications_accepted:
  "PublicationDetector_init [''min_publications'' \<mapsto> - 1] = Inr \<lparr>min_publications = - 1\<rparr>
   \<and> PublicationDetector_init [''min_publications'' \<mapsto> - 1] \<noteq> Inl ConfigurationError"
  by (simp add: PublicationDetector_init_def)

text \<open>
  Claim C9. (amended) Constructing the detector with a negative \<open>min_publications\<close>
  succeeds and stores the value unchanged; such a detector reports on every document that
  at least one publication is mentioned.
\<close>

theorem negative_min_publications_stored:
  assumes "kwargs ''min_publications'' = Some v" and "v < 0"
  shows "PublicationDetector_init kwargs = Inr \<lparr>min_publications = v\<rparr>
         \<and> (\<forall>doc. get_summary \<lparr>min_publications = v\<rparr> doc = one_publication_summary)"
proof (intro conjI allI)
  show "PublicationDetector_init kwargs = Inr \<lparr>min_publications = v\<rparr>"
    using assms(1) by (simp add: PublicationDetector_init_def)
next
  fix doc
  have "0 \<le> sum_list (map snd (identify_publications doc))"
    unfolding pub_count by simp
  with assms(2) show "get_summary \<lparr>min_publications = v\<rparr> doc = one_publication_summary"
    unfolding get_summary_def Let_def by simp
qed

theorem negative_min_publications_stored_witness:
  "[''min_publications'' \<mapsto> - 1 :: rat] ''min_publications'' = Some (- 1) \<and> (- 1 :: rat) < 0
   \<and> PublicationDetector_init [''min_publications'' \<mapsto> - 1] = Inr \<lparr>min_publications = - 1\<rparr>
   \<and> get_summary \<lparr>min_publications = - 1\<rparr> unquoted_doc = one_publication_summary"
proof -
  have h1: "[''min_publications'' \<mapsto> - 1 :: rat] ''min_publications'' = Some (- 1)" by simp
  have h2: "(- 1 :: rat) < 0" by simp
  from negative_min_publications_stored [of "[''min_publications'' \<mapsto> - 1]" "- 1", OF h1 h2] h1 h2
  show ?thesis by blast
qed


section \<open>The matches of the pattern are the quoted substrings\<close>

lemma nq_append: "nq (xs @ ys) = nq xs + nq ys"
  by (simp add: nq_def)

lemma nq_free: "dquote \<notin> set c \<Longrightarrow> nq c = 0"
  by (induction c) (auto simp: nq_def)

lemma quoted_iff:
  "quoted m \<longleftrightarrow> (\<exists>c. c \<noteq> [] \<and> dquote \<notin> set c \<and> m = dquote # c @ [dquote])"
proof
  assume "quoted m"
  then obtain r where m: "m = dquote # r" and r: "r \<noteq> []" "last r = dquote"
    "butlast r \<noteq> []" "dquote \<notin> set (butlast r)"
    by (auto simp: quoted_def split: list.splits)
  from r(1,2) have "r = butlast r @ [dquote]"
    using append_butlast_last_id [of r] by simp
  with m r(3,4) show "\<exists>c. c \<noteq> [] \<and> dquote \<notin> set c \<and> m = dquote # c @ [dquote]"
    by blast
next
  assume "\<exists>c. c \<noteq> [] \<and> dquote \<notin> set c \<and> m = dquote # c @ [dquote]"
  then show "quoted m"
    by (auto simp: quoted_def)
qed

lemma nq_quoted:
  assumes "quoted m"
  shows "nq m = 2"
proof -
  from assms obtain c where c: "dquote \<notin> set c" "m = dquote # c @ [dquote]"
    unfolding quoted_iff by blast
  have "nq m = nq [dquote] + nq c + nq [dquote]"
    unfolding c(2) by (simp add: nq_def)
  then show ?thesis
    using nq_free [OF c(1)] by (simp add: nq_def)
qed

lemma nq_sublist: "sublist xs ys \<Longrightarrow> nq xs \<le> nq ys"
  by (auto simp: sublist_def nq_append)

lemma nq_prefix: "prefix xs ys \<Longrightarrow> nq xs \<le> nq ys"
  by (auto simp: prefix_def nq_append)

lemma match_here_Some:
  assumes "match_here s = Some (m, rest)"
  shows "s = m @ rest \<and> quoted m"
proof -
  from assms obtain r where s: "s = dquote # r"
    by (cases s) (auto simp: match_here_def split: if_splits)
  let ?body = "takeWhile (\<lambda>x. x \<noteq> dquote) r"
  let ?rest = "dropWhile (\<lambda>x. x \<noteq> dquote) r"
  from assms s have body: "?body \<noteq> []"
    by (auto simp: match_here_def Let_def split: if_splits)
  from assms s body obtain y where dr: "?rest = y # rest" and m: "m = dquote # ?body @ [dquote]"
    by (auto simp: match_here_def Let_def split: if_splits list.splits)
  from dr have "y = dquote"
    using hd_dropWhile [of "\<lambda>x. x \<noteq> dquote" r] by simp
  moreover have "r = ?body @ ?rest" by simp
  ultimately have "s = m @ rest" using s m dr by simp
  moreover have "dquote \<notin> set ?body"
    using set_takeWhileD [of dquote "\<lambda>x. x \<noteq> dquote" r] by blast
  with body m have "quoted m" unfolding quoted_iff by blast
  ultimately show ?thesis by blast
qed

lemma match_here_quoted:
  assumes "quoted m"
  shows "match_here (m @ rest) = Some (m, rest)"
proof -
  from assms obtain c where c: "c \<noteq> []" "dquote \<notin> set c" "m = dquote # c @ [dquote]"
    unfolding quoted_iff by blast
  have all: "\<And>x. x \<in> set c \<Longrightarrow> x \<noteq> dquote"
    using c(2) by blast
  have t: "takeWhile (\<lambda>x. x \<noteq> dquote) (c @ dquote # rest) = c"
    using all by (simp add: takeWhile_append2)
  have d: "dropWhile (\<lambda>x. x \<noteq> dquote) (c @ dquote # rest) = dquote # rest"
    using all by (simp add: dropWhile_append2)
  show ?thesis
    unfolding c(3) match_here_def using c(1) by (simp add: t d)
qed

lemma match_here_None:
  "match_here s = None \<Longrightarrow> quoted m \<Longrightarrow> \<not> prefix m s"
  using match_here_quoted by (fastforce simp: prefix_def)

lemma has_quoted_Cons:
  "has_quoted (c # r) \<longleftrightarrow> (\<exists>m. quoted m \<and> prefix m (c # r)) \<or> has_quoted r"
  unfolding has_quoted_def by (auto simp: sublist_Cons_right)

lemma not_has_quoted_butlast:
  assumes "quoted m"
  shows "\<not> has_quoted (butlast m)"
proof
  assume "has_quoted (butlast m)"
  then obtain m' where m': "quoted m'" "sublist m' (butlast m)"
    unfolding has_quoted_def by blast
  from assms obtain c where c: "dquote \<notin> set c" "m = dquote # c @ [dquote]"
    unfolding quoted_iff by blast
  have "butlast m = dquote # c" unfolding c(2) by (simp add: butlast_append)
  then have "nq (butlast m) = 1" using nq_free [OF c(1)] by (simp add: nq_def)
  moreover have "nq m' = 2" using m'(1) by (rule nq_quoted)
  ultimately show False using nq_sublist [OF m'(2)] by simp
qed

lemma quoted_substrings_Cons:
  assumes "quoted_substrings r ms" and "\<And>m. quoted m \<Longrightarrow> \<not> prefix m (c # r)"
  shows "quoted_substrings (c # r) ms"
  using assms(1)
proof cases
  case no_match
  with assms(2) have "\<not> has_quoted (c # r)"
    unfolding has_quoted_Cons by blast
  with no_match show ?thesis by (simp add: quoted_substrings.no_match)
next
  case (next_match m pre rest ms')
  have "\<not> has_quoted ((c # pre) @ butlast m)"
  proof
    assume "has_quoted ((c # pre) @ butlast m)"
    then have "\<exists>m'. quoted m' \<and> prefix m' (c # pre @ butlast m)"
      using next_match(4) unfolding has_quoted_Cons [of c "pre @ butlast m", simplified]
      by (simp add: has_quoted_Cons)
    then obtain m' where m': "quoted m'" "prefix m' (c # pre @ butlast m)" by blast
    have "prefix (butlast m) m" by (rule prefixeq_butlast)
    then have "prefix (butlast m) (m @ rest)"
      by (rule prefix_order.trans) simp
    then have "prefix (c # pre @ butlast m) (c # pre @ m @ rest)"
      by simp
    with m'(2) have "prefix m' (c # r)"
      unfolding next_match(1) using prefix_order.trans by blast
    with assms(2) m'(1) show False by blast
  qed
  then have "quoted_substrings ((c # pre) @ m @ rest) (m # ms')"
    using next_match(3,5) by (intro quoted_substrings.next_match)
  then show ?thesis unfolding next_match(1,2) by simp
qed

lemma findall_quoted_substrings: "quoted_substrings t (findall t)"
proof (induction t rule: findall.induct)
  case 1
  have "\<not> has_quoted []"
    by (auto simp: has_quoted_def quoted_def)
  then show ?case by (simp add: quoted_substrings.no_match)
next
  case (2 c r)
  show ?case
  proof (cases "match_here (c # r)")
    case None
    then have "quoted_substrings r (findall r)" using 2(1) by simp
    moreover have "\<And>m. quoted m \<Longrightarrow> \<not> prefix m (c # r)"
      using match_here_None [OF None] by blast
    ultimately have "quoted_substrings (c # r) (findall r)"
      by (rule quoted_substrings_Cons)
    with None show ?thesis by simp
  next
    case (Some p)
    obtain m rest where p: "p = (m, rest)" by (cases p)
    from Some p have mh: "match_here (c # r) = Some (m, rest)" by simp
    then have eq: "c # r = m @ rest" and q: "quoted m"
      using match_here_Some by blast+
    have "quoted_substrings rest (findall rest)"
      using 2(2) [OF Some p [symmetric]] .
    with q not_has_quoted_butlast [OF q]
    have "quoted_substrings ([] @ m @ rest) (m # findall rest)"
      by (intro quoted_substrings.next_match) simp_all
    moreover have "findall (c # r) = m # findall rest"
      using mh by simp
    ultimately show ?thesis unfolding eq [symmetric] by simp
  qed
qed

lemma findall_members:
  "m \<in> set (findall t) \<Longrightarrow> quoted m \<and> sublist m t"
proof (induction t rule: findall.induct)
  case 1
  then show ?case by simp
next
  case (2 c r)
  show ?case
  proof (cases "match_here (c # r)")
    case None
    with 2(3) have "m \<in> set (findall r)" by simp
    with 2(1) [OF None] show ?thesis by (auto simp: sublist_Cons_right)
  next
    case (Some p)
    obtain m' rest where p: "p = (m', rest)" by (cases p)
    from Some p have mh: "match_here (c # r) = Some (m', rest)" by simp
    then have eq: "c # r = m' @ rest" and q: "quoted m'"
      using match_here_Some by blast+
    from 2(3) mh have "m = m' \<or> m \<in> set (findall rest)" by simp
    then show ?thesis
    proof
      assume "m = m'"
      with q show ?thesis unfolding eq by (simp add: prefix_imp_sublist)
    next
      assume "m \<in> set (findall rest)"
      then have qm: "quoted m" and "sublist m rest"
        using 2(2) [OF Some p [symmetric]] by blast+
      then obtain ps ss where "rest = ps @ m @ ss"
        unfolding sublist_def by blast
      then have "m' @ rest = (m' @ ps) @ m @ ss" by simp
      then have "sublist m (m' @ rest)"
        unfolding sublist_def by blast
      with qm show ?thesis unfolding eq by blast
    qed
  qed
qed

lemma findall_next_match:
  assumes "quoted m" and "\<not> has_quoted (pre @ butlast m)"
  shows "findall (pre @ m @ rest) = m # findall rest"
  using assms(2)
proof (induction pre)
  case Nil
  from assms(1) obtain a as where "m = a # as" by (cases m) (auto simp: quoted_def)
  then have "findall (m @ rest) = (case match_here (m @ rest) of
        None \<Rightarrow> findall (as @ rest) | Some (m, rest) \<Rightarrow> m # findall rest)"
    by simp
  then show ?case using match_here_quoted [OF assms(1)] by simp
next
  case (Cons c pre)
  have none: "match_here (c # pre @ m @ rest) = None"
  proof (rule ccontr)
    assume "match_here (c # pre @ m @ rest) \<noteq> None"
    then obtain m' rest' where mh: "match_here (c # pre @ m @ rest) = Some (m', rest')"
      by auto
    then have eq: "c # pre @ m @ rest = m' @ rest'" and q': "quoted m'"
      using match_here_Some by blast+
    from assms(1) have mne: "m = butlast m @ [dquote]"
      unfolding quoted_iff by (auto simp: butlast_append)
    have p1: "prefix m' (c # pre @ m @ rest)"
      unfolding eq by simp
    have p2: "prefix (c # pre @ butlast m) (c # pre @ m @ rest)"
      by (subst (2) mne) simp
    have p3: "prefix (c # pre @ m) (c # pre @ m @ rest)"
      by simp
    have len: "length (c # pre @ m) = Suc (length (c # pre @ butlast m))"
      by (subst mne) simp
    show False
    proof (cases "length m' \<le> length (c # pre @ butlast m)")
      case True
      with p1 p2 have "prefix m' (c # pre @ butlast m)"
        by (rule prefix_length_prefix)
      then have "sublist m' ((c # pre) @ butlast m)"
        by (simp add: prefix_imp_sublist)
      with q' have "has_quoted ((c # pre) @ butlast m)"
        unfolding has_quoted_def by blast
      with Cons.prems show False by blast
    next
      case False
      then have "length (c # pre @ m) \<le> length m'"
        unfolding len by simp
      with p3 p1 have pre: "prefix (c # pre @ m) m'"
        by (rule prefix_length_prefix)
      from q' obtain r' where "m' = dquote # r'"
        by (cases m') (auto simp: quoted_def)
      with pre have "c = dquote" by simp
      then have "nq (c # pre @ m) = 1 + nq pre + nq m"
        by (simp add: nq_def)
      then have "3 \<le> nq (c # pre @ m)"
        using nq_quoted [OF assms(1)] by simp
      with nq_prefix [OF pre] nq_quoted [OF q'] show False by simp
    qed
  qed
  from Cons.prems have "\<not> has_quoted (pre @ butlast m)"
    by (simp add: has_quoted_Cons)
  then have "findall (pre @ m @ rest) = m # findall rest" by (rule Cons.IH)
  with none show ?case by simp
qed

lemma quoted_substrings_unique:
  "quoted_substrings t ms \<Longrightarrow> findall t = ms"
proof (induction rule: quoted_substrings.induct)
  case (no_match t)
  show ?case
  proof (rule ccontr)
    assume "findall t \<noteq> []"
    then obtain m where "m \<in> set (findall t)" by (cases "findall t") auto
    then have "has_quoted t" using findall_members unfolding has_quoted_def by blast
    with no_match show False by blast
  qed
next
  case (next_match m pre rest ms)
  then show ?case using findall_next_match by simp
qed

text \<open>
  Claim C2. Every text has exactly one list of quoted substrings in the sense of
  \<open>quoted_substrings\<close> (the non-overlapping double-quoted substrings with non-empty,
  quote-free content, leftmost first), and it is the list of matches the scan finds. The
  keys of the returned dictionary are distinct and are exactly the members of that list,
  and the value of a key is a quarter of the number of times it occurs in the list. On
  the example text the dictionary has the single key \<open>"Deep Learning Advances"\<close>, quotes
  included, with value \<open>1/2\<close>.
\<close>

theorem identify_publications_quoted_substrings:
  "(\<exists>ms. quoted_substrings (doc_text doc) ms)
   \<and> (\<forall>ms. quoted_substrings (doc_text doc) ms \<longrightarrow>
          ms = findall (doc_text doc)
          \<and> (\<forall>m \<in> set ms. quoted m \<and> sublist m (doc_text doc))
          \<and> distinct (map fst (identify_publications doc))
          \<and> fst ` set (identify_publications doc) = set ms
          \<and> (\<forall>k \<in> set ms.
                map_of (identify_publications doc) k = Some (of_nat (count_list ms k) * (1 / 4))))"
proof (intro conjI allI impI)
  show "\<exists>ms. quoted_substrings (doc_text doc) ms"
    using findall_quoted_substrings by blast
next
  fix ms assume "quoted_substrings (doc_text doc) ms"
  then have ms: "findall (doc_text doc) = ms"
    by (rule quoted_substrings_unique)
  then show "ms = findall (doc_text doc)" by simp
  show "\<forall>m \<in> set ms. quoted m \<and> sublist m (doc_text doc)"
    using findall_members unfolding ms [symmetric] by blast
  show "distinct (map fst (identify_publications doc))"
    by (rule identify_publications_distinct)
  have "fst ` set (identify_publications doc) = dom (map_of (identify_publications doc))"
    by (simp add: dom_map_of_conv_image_fst)
  also have "\<dots> = set ms"
  proof -
    have "(map_of (identify_publications doc) k \<noteq> None) = (k \<in> set ms)" for k
    proof (cases "k \<in> set ms")
      case True
      then have "map_of (identify_publications doc) k
                   = Some (of_nat (count_list ms k) * (1 / 4))"
        unfolding identify_publications_lookup ms by (rule if_P)
      with True show ?thesis by simp
    next
      case False
      then have "map_of (identify_publications doc) k = None"
        unfolding identify_publications_lookup ms by (rule if_not_P)
      with False show ?thesis by simp
    qed
    then show ?thesis unfolding dom_def by simp
  qed
  finally show "fst ` set (identify_publications doc) = set ms" .
  show "\<forall>k \<in> set ms.
          map_of (identify_publications doc) k = Some (of_nat (count_list ms k) * (1 / 4))"
    unfolding identify_publications_lookup ms by simp
qed

theorem identify_publications_quoted_substrings_witness:
  "quoted_substrings (doc_text deep_learning_doc)
     [dquote # ''Deep Learning Advances'' @ [dquote],
      dquote # ''Deep Learning Advances'' @ [dquote]]
   \<and> fst ` set (identify_publications deep_learning_doc)
       = {dquote # ''Deep Learning Advances'' @ [dquote]}
   \<and> map_of (identify_publications deep_learning_doc)
         (dquote # ''Deep Learning Advances'' @ [dquote]) = Some (1 / 2)
   \<and> identify_publications deep_learning_doc
       = [(dquote # ''Deep Learning Advances'' @ [dquote], 1 / 2)]"
proof -
  let ?dl = "dquote # ''Deep Learning Advances'' @ [dquote]"
  have f: "findall (doc_text deep_learning_doc) = [?dl, ?dl]"
    by code_simp
  from identify_publications_quoted_substrings [of deep_learning_doc]
  obtain ms where ms: "quoted_substrings (doc_text deep_learning_doc) ms"
    and all: "\<And>ms'. quoted_substrings (doc_text deep_learning_doc) ms' \<Longrightarrow>
          ms' = findall (doc_text deep_learning_doc)
          \<and> fst ` set (identify_publications deep_learning_doc) = set ms'
          \<and> (\<forall>k \<in> set ms'. map_of (identify_publications deep_learning_doc) k
                = Some (of_nat (count_list ms' k) * (1 / 4)))"
    by blast
  from all [OF ms] have "ms = [?dl, ?dl]" unfolding f by blast
  with ms have q: "quoted_substrings (doc_text deep_learning_doc) [?dl, ?dl]" by simp
  from all [OF q] have k: "fst ` set (identify_publications deep_learning_doc) = {?dl}"
    and v: "map_of (identify_publications deep_learning_doc) ?dl = Some (1 / 2)"
    by simp_all
  have "identify_publications deep_learning_doc = [(?dl, 1 / 2)]"
    by code_simp
  with q k v show ?thesis by blast
qed

end
